theory Spec2Isabelle
  imports
    Main
    "HOL-Library.Finite_Map"
    "HOL-Library.Char_ord"
    "HOL-Library.List_Lexorder"
    "HOL-Library.Sublist"
begin

section \<open>Value-level embedding of entitlements.go\<close>

text \<open>
  Go strings are byte sequences, as \<^typ>\<open>string\<close> is here. A slice of strings is read
  by the code only through \<open>len\<close>, \<open>range\<close>, \<open>append\<close> and \<open>slices.Contains\<close>, none of
  which tells a nil slice from an empty one, so at the value level a slice is a list and
  the nil slice is \<open>[]\<close>. A Go map is either nil or a finite map; reading a nil map
  gives the zero value, ranging over it runs no iteration, and assigning to one of its
  entries panics. The store-level embedding further down keeps maps and backing arrays
  at addresses.
\<close>

datatype error = NilMapAssign

datatype gomap = NilMap | GoMap "(string, string list) fmap"

type_synonym Entitlements = gomap
type_synonym Requirements = "gomap list"

record EntitlementsChecker =
  anonymousEntitlements :: "string list"
  defaultScheme :: string
  grantReadyByDefault :: bool

definition NewEntitlementsChecker :: "string list \<Rightarrow> string \<Rightarrow> bool \<Rightarrow> EntitlementsChecker" where
  "NewEntitlementsChecker anon scheme grant =
     \<lparr> anonymousEntitlements = anon,
       defaultScheme = (if scheme = [] then ''bearer'' else scheme),
       grantReadyByDefault = grant \<rparr>"

subsection \<open>Map primitives\<close>

text \<open>\<open>v, ok := m[k]\<close>\<close>
definition mapIndex :: "gomap \<Rightarrow> string \<Rightarrow> string list option" where
  "mapIndex m k = (case m of NilMap \<Rightarrow> None | GoMap f \<Rightarrow> fmlookup f k)"

text \<open>\<open>m[k]\<close> as an expression: the zero value (the nil slice) for a missing key.\<close>
definition mapGet :: "gomap \<Rightarrow> string \<Rightarrow> string list" where
  "mapGet m k = (case mapIndex m k of None \<Rightarrow> [] | Some l \<Rightarrow> l)"

text \<open>\<open>m[k] = v\<close>: a run-time panic on a nil map.\<close>
definition mapAssign :: "gomap \<Rightarrow> string \<Rightarrow> string list \<Rightarrow> error + gomap" where
  "mapAssign m k v = (case m of NilMap \<Rightarrow> Inl NilMapAssign | GoMap f \<Rightarrow> Inr (GoMap (fmupd k v f)))"

text \<open>
  \<open>for k, v := range m\<close>: Go leaves the order unspecified; the model visits the keys in
  increasing order. The loops of the value-level embedding over a map are shown below to
  have a result that depends on the set of entries only.
\<close>
definition mapItems :: "gomap \<Rightarrow> (string \<times> string list) list" where
  "mapItems m = (case m of NilMap \<Rightarrow> [] | GoMap f \<Rightarrow> sorted_list_of_fmap f)"

subsection \<open>The matching rule\<close>

text \<open>\<open>strings.Split(s, sep)\<close> for a one-byte separator.\<close>
fun Split :: "char \<Rightarrow> string \<Rightarrow> string list" where
  "Split sep [] = [[]]"
| "Split sep (c # cs) =
     (if c = sep then [] # Split sep cs
      else (c # hd (Split sep cs)) # tl (Split sep cs))"

text \<open>The rewriting of a two-field split, done in place on \<open>parts\<close> and on \<open>requiredParts\<close>.\<close>
definition expandShort :: "string list \<Rightarrow> string list" where
  "expandShort parts = (if length parts = 2 then [parts ! 0, [], parts ! 1] else parts)"

definition entitlementMatches :: "string \<Rightarrow> string \<Rightarrow> bool" where
  "entitlementMatches entitlement requirement =
     (if entitlement = requirement then True
      else
        let parts = expandShort (Split CHR '':'' entitlement);
            requiredParts = expandShort (Split CHR '':'' requirement)
        in
          if length parts \<noteq> 3 \<or> length requiredParts \<noteq> 3 then False
          else if parts ! 0 \<noteq> requiredParts ! 0 then False
          else if parts ! 2 \<noteq> ''all'' \<and> parts ! 2 \<noteq> requiredParts ! 2 then False
          else if parts ! 1 = [] \<or> parts ! 1 = ''*'' then True
          else if requiredParts ! 1 = [] \<or> requiredParts ! 1 = ''*'' then True
          else parts ! 1 = requiredParts ! 1)"

fun hasEntitlement :: "string list \<Rightarrow> string \<Rightarrow> bool" where
  "hasEntitlement [] requirement = False"
| "hasEntitlement (entitlement # rest) requirement =
     (if entitlementMatches entitlement requirement then True
      else hasEntitlement rest requirement)"

fun satisfiesRequirement :: "string list \<Rightarrow> string list \<Rightarrow> bool" where
  "satisfiesRequirement entitlements [] = True"
| "satisfiesRequirement entitlements (curRequirement # rest) =
     (if \<not> hasEntitlement entitlements curRequirement then False
      else satisfiesRequirement entitlements rest)"

text \<open>The body of the loop of \<open>satisfiesAndRequirements\<close>, over the entries still to visit.\<close>
fun satisfiesAndLoop :: "gomap \<Rightarrow> (string \<times> string list) list \<Rightarrow> bool" where
  "satisfiesAndLoop entitlements [] = True"
| "satisfiesAndLoop entitlements ((re, requirementList) # rest) =
     (case mapIndex entitlements re of
        None \<Rightarrow> False
      | Some entitlementList \<Rightarrow>
          if \<not> satisfiesRequirement entitlementList requirementList then False
          else satisfiesAndLoop entitlements rest)"

definition satisfiesAndRequirements :: "gomap \<Rightarrow> gomap \<Rightarrow> bool" where
  "satisfiesAndRequirements entitlements requirement =
     satisfiesAndLoop entitlements (mapItems requirement)"

subsection \<open>Cloning\<close>

definition cloneMap :: "(string, string list) fmap \<Rightarrow> (string, string list) fmap" where
  "cloneMap f = fold (\<lambda>(key, l) clone. fmupd key l clone) (sorted_list_of_fmap f) fmempty"

definition deepCloneEntitlements :: "gomap \<Rightarrow> gomap" where
  "deepCloneEntitlements entitlements =
     (case entitlements of NilMap \<Rightarrow> NilMap | GoMap f \<Rightarrow> GoMap (cloneMap f))"

definition deepCloneRequirements :: "Requirements \<Rightarrow> Requirements" where
  "deepCloneRequirements requirements =
     map (\<lambda>reqMap. case reqMap of NilMap \<Rightarrow> NilMap | GoMap f \<Rightarrow> GoMap (cloneMap f)) requirements"

subsection \<open>VerifyEntitlements\<close>

text \<open>
  One round of the inner loop over the anonymous entitlements (lines 113 to 119), on the
  loop variable \<open>entitlementList\<close>, the map and the flag \<open>added\<close>.
\<close>
definition anonStep ::
  "EntitlementsChecker \<Rightarrow> string \<Rightarrow> string \<Rightarrow>
   string list \<times> (string, string list) fmap \<times> bool \<Rightarrow>
   string list \<times> (string, string list) fmap \<times> bool" where
  "anonStep ec scheme anonEntitlement = (\<lambda>(entitlementList, entitlements, added).
     if scheme = defaultScheme ec \<and> anonEntitlement \<notin> set entitlementList
     then (entitlementList @ [anonEntitlement],
           fmupd scheme (entitlementList @ [anonEntitlement]) entitlements, True)
     else (entitlementList, entitlements, added))"

text \<open>One round of the outer loop over the entries of the clone (lines 112 to 120).\<close>
definition schemeStep ::
  "EntitlementsChecker \<Rightarrow> string \<times> string list \<Rightarrow>
   (string, string list) fmap \<times> bool \<Rightarrow> (string, string list) fmap \<times> bool" where
  "schemeStep ec = (\<lambda>(scheme, entitlementList) (entitlements, added).
     snd (fold (anonStep ec scheme) (anonymousEntitlements ec)
            (entitlementList, entitlements, added)))"

text \<open>
  Lines 107 to 125: the mapping the requirements are evaluated on. A nil clone is ranged
  over without an iteration, \<open>added\<close> stays false and the assignment of line 123 panics.
\<close>
definition addAnonymous :: "EntitlementsChecker \<Rightarrow> Entitlements \<Rightarrow> error + Entitlements" where
  "addAnonymous ec entitlements =
     (if length (anonymousEntitlements ec) > 0 then
        (case deepCloneEntitlements entitlements of
           NilMap \<Rightarrow>
             mapAssign NilMap (defaultScheme ec)
               (mapGet NilMap (defaultScheme ec) @ anonymousEntitlements ec)
         | GoMap clone \<Rightarrow>
             (case fold (schemeStep ec) (sorted_list_of_fmap clone) (clone, False) of
                (entitlements', added) \<Rightarrow>
                  if \<not> added then
                    mapAssign (GoMap entitlements') (defaultScheme ec)
                      (mapGet (GoMap entitlements') (defaultScheme ec) @ anonymousEntitlements ec)
                  else Inr (GoMap entitlements')))
      else Inr entitlements)"

text \<open>The loop of lines 128 to 134.\<close>
fun anySatisfies :: "Entitlements \<Rightarrow> Requirements \<Rightarrow> bool" where
  "anySatisfies entitlements [] = False"
| "anySatisfies entitlements (requirement # rest) =
     (if satisfiesAndRequirements entitlements requirement then True
      else anySatisfies entitlements rest)"

definition VerifyEntitlements ::
  "EntitlementsChecker \<Rightarrow> Entitlements \<Rightarrow> Requirements \<Rightarrow> error + bool" where
  "VerifyEntitlements ec entitlements requirements =
     (if length requirements = 0 then Inr True
      else
        (case addAnonymous ec entitlements of
           Inl e \<Rightarrow> Inl e
         | Inr entitlements' \<Rightarrow> Inr (anySatisfies entitlements' requirements)))"

subsection \<open>VerifyResourceEntitlements\<close>

text \<open>\<open>fmt.Sprintf("%s:%s:read", resource, resourceName)\<close>\<close>
definition identityOf :: "string \<Rightarrow> string \<Rightarrow> string" where
  "identityOf resource resourceName = resource @ '':'' @ resourceName @ '':read''"

text \<open>The loop of lines 77 to 79; it stops at the first nil entry, where the assignment panics.\<close>
fun addIdentity :: "string \<Rightarrow> string \<Rightarrow> Requirements \<Rightarrow> error + Requirements" where
  "addIdentity scheme identity [] = Inr []"
| "addIdentity scheme identity (req # rest) =
     (case mapAssign req scheme (mapGet req scheme @ [identity]) of
        Inl e \<Rightarrow> Inl e
      | Inr req' \<Rightarrow>
          (case addIdentity scheme identity rest of
             Inl e \<Rightarrow> Inl e
           | Inr rest' \<Rightarrow> Inr (req' # rest')))"

definition VerifyResourceEntitlements ::
  "EntitlementsChecker \<Rightarrow> string \<Rightarrow> string \<Rightarrow> Entitlements \<Rightarrow> Requirements \<Rightarrow> error + bool" where
  "VerifyResourceEntitlements ec resource resourceName entitlements requirements =
     (let requirements1 = deepCloneRequirements requirements;
          identity = identityOf resource resourceName
      in
        case (if length requirements1 = 0
              then Inr (requirements1 @ [GoMap (fmupd (defaultScheme ec) [identity] fmempty)])
              else addIdentity (defaultScheme ec) identity requirements1) of
          Inl e \<Rightarrow> Inl e
        | Inr requirements2 \<Rightarrow>
            let entitlements1 = deepCloneEntitlements entitlements in
            (case (if grantReadyByDefault ec
                   then mapAssign entitlements1 (defaultScheme ec)
                          (mapGet entitlements1 (defaultScheme ec) @ [identity])
                   else Inr entitlements1) of
               Inl e \<Rightarrow> Inl e
             | Inr entitlements2 \<Rightarrow> VerifyEntitlements ec entitlements2 requirements2))"

subsection \<open>Auxiliary notions used in the statements\<close>

text \<open>
  The list that lines 113 to 119 leave in \<open>entitlementList\<close> for the default scheme:
  every anonymous entitlement not yet in the list is put at its end.
\<close>
definition addNew :: "string list \<Rightarrow> string list \<Rightarrow> string list" where
  "addNew anons l = fold (\<lambda>a l. if a \<in> set l then l else l @ [a]) anons l"

text \<open>The entries of a map; a nil map has none.\<close>
definition entries :: "gomap \<Rightarrow> (string, string list) fmap" where
  "entries m = (case m of NilMap \<Rightarrow> fmempty | GoMap f \<Rightarrow> f)"

section \<open>Store-level embedding\<close>

text \<open>
  Whether the caller's data is written depends on what the maps and slices of the program
  share, so this second embedding keeps the Go objects in a store: the backing arrays of
  string slices, the map objects, and the backing arrays of the \<open>Requirements\<close> slices, each
  a list indexed by address. Allocation appends to the list, so the address of a new
  object is the length of the list before. A slice header is nil or an array address with
  a length and a capacity (offsets are left out: the program never reslices, and it only
  reads the slices it is given); a map reference is nil or the address of a map object,
  whose values are slice headers.
\<close>

datatype sslice = NilSlice | Slice nat nat nat
datatype mref = NilRef | MapAt nat
datatype rslice = NilReqs | Reqs nat nat nat

record store =
  sarrs :: "string list list"
  maps :: "(string, sslice) fmap list"
  rarrs :: "mref list list"

text \<open>
  The capacity \<open>append\<close> gives a reallocated array. The Go runtime rounds differently; no
  proof below depends on more than on the new array being a new object.
\<close>
definition growcap :: "nat \<Rightarrow> nat \<Rightarrow> nat" where
  "growcap oldcap needed = max needed (2 * oldcap)"

text \<open>\<open>len(s)\<close> and the elements of a string slice\<close>
fun lenS :: "sslice \<Rightarrow> nat" where
  "lenS NilSlice = 0"
| "lenS (Slice a n c) = n"

fun elemsS :: "store \<Rightarrow> sslice \<Rightarrow> string list" where
  "elemsS st NilSlice = []"
| "elemsS st (Slice a n c) = take n (sarrs st ! a)"

text \<open>\<open>make([]string, n)\<close>\<close>
definition makeS :: "nat \<Rightarrow> store \<Rightarrow> sslice \<times> store" where
  "makeS n st = (Slice (length (sarrs st)) n n, st\<lparr>sarrs := sarrs st @ [replicate n []]\<rparr>)"

text \<open>\<open>copy(dst, src)\<close>, on the elements read from \<open>src\<close>\<close>
fun copyS :: "sslice \<Rightarrow> string list \<Rightarrow> store \<Rightarrow> store" where
  "copyS NilSlice xs st = st"
| "copyS (Slice a n c) xs st =
     st\<lparr>sarrs := (sarrs st)[a := take n xs @ drop (min n (length xs)) (sarrs st ! a)]\<rparr>"

text \<open>
  \<open>append(s, xs...)\<close>: in place when the capacity allows, into a new array otherwise.
\<close>
fun appendS :: "sslice \<Rightarrow> string list \<Rightarrow> store \<Rightarrow> sslice \<times> store" where
  "appendS NilSlice xs st =
     (if xs = [] then (NilSlice, st)
      else let c = growcap 0 (length xs)
           in (Slice (length (sarrs st)) (length xs) c,
               st\<lparr>sarrs := sarrs st @ [xs @ replicate (c - length xs) []]\<rparr>))"
| "appendS (Slice a n c) xs st =
     (if n + length xs \<le> c
      then (Slice a (n + length xs) c,
            st\<lparr>sarrs := (sarrs st)[a := take n (sarrs st ! a) @ xs
                                          @ drop (n + length xs) (sarrs st ! a)]\<rparr>)
      else let c' = growcap c (n + length xs)
           in (Slice (length (sarrs st)) (n + length xs) c',
               st\<lparr>sarrs := sarrs st @ [take n (sarrs st ! a) @ xs
                                          @ replicate (c' - (n + length xs)) []]\<rparr>))"

text \<open>\<open>make(map[string][]string, n)\<close>\<close>
definition makeMap :: "store \<Rightarrow> nat \<times> store" where
  "makeMap st = (length (maps st), st\<lparr>maps := maps st @ [fmempty]\<rparr>)"

text \<open>Reading a map: a nil map reads as the empty map.\<close>
fun contentM :: "store \<Rightarrow> mref \<Rightarrow> (string, sslice) fmap" where
  "contentM st NilRef = fmempty"
| "contentM st (MapAt a) = maps st ! a"

definition getM :: "store \<Rightarrow> mref \<Rightarrow> string \<Rightarrow> sslice" where
  "getM st m k = (case fmlookup (contentM st m) k of None \<Rightarrow> NilSlice | Some sl \<Rightarrow> sl)"

text \<open>\<open>m[k] = v\<close> on the map object at an address, and on a reference that may be nil.\<close>
definition writeM :: "nat \<Rightarrow> string \<Rightarrow> sslice \<Rightarrow> store \<Rightarrow> store" where
  "writeM a k v st = st\<lparr>maps := (maps st)[a := fmupd k v (maps st ! a)]\<rparr>"

fun assignM :: "mref \<Rightarrow> string \<Rightarrow> sslice \<Rightarrow> store \<Rightarrow> error + store" where
  "assignM NilRef k v st = Inl NilMapAssign"
| "assignM (MapAt a) k v st = Inr (writeM a k v st)"

text \<open>The same operations on slices of map references.\<close>
fun lenR :: "rslice \<Rightarrow> nat" where
  "lenR NilReqs = 0"
| "lenR (Reqs a n c) = n"

fun elemsR :: "store \<Rightarrow> rslice \<Rightarrow> mref list" where
  "elemsR st NilReqs = []"
| "elemsR st (Reqs a n c) = take n (rarrs st ! a)"

definition makeR :: "nat \<Rightarrow> store \<Rightarrow> nat \<times> store" where
  "makeR n st = (length (rarrs st), st\<lparr>rarrs := rarrs st @ [replicate n NilRef]\<rparr>)"

definition setR :: "nat \<Rightarrow> nat \<Rightarrow> mref \<Rightarrow> store \<Rightarrow> store" where
  "setR a i m st = st\<lparr>rarrs := (rarrs st)[a := (rarrs st ! a)[i := m]]\<rparr>"

fun appendR :: "rslice \<Rightarrow> mref \<Rightarrow> store \<Rightarrow> rslice \<times> store" where
  "appendR NilReqs m st =
     (let c = growcap 0 1
      in (Reqs (length (rarrs st)) 1 c, st\<lparr>rarrs := rarrs st @ [m # replicate (c - 1) NilRef]\<rparr>))"
| "appendR (Reqs a n c) m st =
     (if n + 1 \<le> c
      then (Reqs a (n + 1) c, st\<lparr>rarrs := (rarrs st)[a := (rarrs st ! a)[n := m]]\<rparr>)
      else let c' = growcap c (n + 1)
           in (Reqs (length (rarrs st)) (n + 1) c',
               st\<lparr>rarrs := rarrs st @ [take n (rarrs st ! a) @ m # replicate (c' - (n + 1)) NilRef]\<rparr>))"

text \<open>The value a map reference stands for in a store.\<close>
definition readM :: "store \<Rightarrow> mref \<Rightarrow> gomap" where
  "readM st m = (case m of NilRef \<Rightarrow> NilMap | MapAt a \<Rightarrow> GoMap (fmmap (elemsS st) (maps st ! a)))"

text \<open>
  The body of the loops of lines 235 to 245 and 265 to 275, which copy one entry into the
  new map: a nil slice stays nil, any other is copied into a new array.
\<close>
definition cloneEntry :: "nat \<Rightarrow> string \<times> sslice \<Rightarrow> store \<Rightarrow> store" where
  "cloneEntry clone = (\<lambda>(key, l) st.
     if l = NilSlice then writeM clone key NilSlice st
     else
       (case makeS (lenS l) st of
          (newList, st1) \<Rightarrow> writeM clone key newList (copyS newList (elemsS st1 l) st1)))"

text \<open>A new map and the loop over the entries of the map at address \<open>a\<close>.\<close>
definition cloneMapS :: "nat \<Rightarrow> store \<Rightarrow> nat \<times> store" where
  "cloneMapS a st =
     (case makeMap st of
        (clone, st1) \<Rightarrow> (clone, fold (cloneEntry clone) (sorted_list_of_fmap (maps st ! a)) st1))"

fun deepCloneEntitlementsS :: "mref \<Rightarrow> store \<Rightarrow> mref \<times> store" where
  "deepCloneEntitlementsS NilRef st = (NilRef, st)"
| "deepCloneEntitlementsS (MapAt a) st = (case cloneMapS a st of (clone, st') \<Rightarrow> (MapAt clone, st'))"

text \<open>The body of the loop of lines 258 to 277: a nil entry is skipped.\<close>
definition cloneReq :: "nat \<Rightarrow> nat \<times> mref \<Rightarrow> store \<Rightarrow> store" where
  "cloneReq clone = (\<lambda>(i, reqMap) st.
     case reqMap of
       NilRef \<Rightarrow> st
     | MapAt b \<Rightarrow> (case cloneMapS b st of (newMap, st') \<Rightarrow> setR clone i (MapAt newMap) st'))"

fun deepCloneRequirementsS :: "rslice \<Rightarrow> store \<Rightarrow> rslice \<times> store" where
  "deepCloneRequirementsS NilReqs st = (NilReqs, st)"
| "deepCloneRequirementsS (Reqs a n c) st =
     (case makeR n st of
        (clone, st1) \<Rightarrow>
          (Reqs clone n n, fold (cloneReq clone) (enumerate 0 (take n (rarrs st ! a))) st1))"

text \<open>Lines 113 to 119 on the store; \<open>clone\<close> is the address of the cloned map.\<close>
definition anonStepS ::
  "EntitlementsChecker \<Rightarrow> nat \<Rightarrow> string \<Rightarrow> string \<Rightarrow>
   sslice \<times> store \<times> bool \<Rightarrow> sslice \<times> store \<times> bool" where
  "anonStepS ec clone scheme anonEntitlement = (\<lambda>(entitlementList, st, added).
     if scheme = defaultScheme ec \<and> anonEntitlement \<notin> set (elemsS st entitlementList)
     then (case appendS entitlementList [anonEntitlement] st of
             (entitlementList', st1) \<Rightarrow>
               (entitlementList', writeM clone scheme entitlementList' st1, True))
     else (entitlementList, st, added))"

definition schemeStepS ::
  "EntitlementsChecker \<Rightarrow> nat \<Rightarrow> string \<times> sslice \<Rightarrow> store \<times> bool \<Rightarrow> store \<times> bool" where
  "schemeStepS ec clone = (\<lambda>(scheme, entitlementList) (st, added).
     snd (fold (anonStepS ec clone scheme) (anonymousEntitlements ec)
            (entitlementList, st, added)))"

text \<open>
  Lines 107 to 125. The right-hand side of line 123 is evaluated, and may allocate, before
  the assignment to an entry of a nil map panics.
\<close>
definition addAnonymousS ::
  "EntitlementsChecker \<Rightarrow> mref \<Rightarrow> store \<Rightarrow> (error + mref) \<times> store" where
  "addAnonymousS ec entitlements st =
     (if length (anonymousEntitlements ec) > 0 then
        (case deepCloneEntitlementsS entitlements st of
           (NilRef, st1) \<Rightarrow>
             (case appendS (getM st1 NilRef (defaultScheme ec)) (anonymousEntitlements ec) st1 of
                (l, st2) \<Rightarrow> (Inl NilMapAssign, st2))
         | (MapAt clone, st1) \<Rightarrow>
             (case fold (schemeStepS ec clone) (sorted_list_of_fmap (maps st1 ! clone))
                     (st1, False) of
                (st2, added) \<Rightarrow>
                  if \<not> added then
                    (case appendS (getM st2 (MapAt clone) (defaultScheme ec))
                            (anonymousEntitlements ec) st2 of
                       (l, st3) \<Rightarrow> (Inr (MapAt clone), writeM clone (defaultScheme ec) l st3))
                  else (Inr (MapAt clone), st2)))
      else (Inr entitlements, st))"

text \<open>
  Lines 128 to 134 only read: \<open>satisfiesAndRequirements\<close> and the functions it calls
  contain no assignment to a map entry or a slice element, so the result is that of the
  value-level loop on what the store holds.
\<close>
definition VerifyEntitlementsS ::
  "EntitlementsChecker \<Rightarrow> mref \<Rightarrow> rslice \<Rightarrow> store \<Rightarrow> (error + bool) \<times> store" where
  "VerifyEntitlementsS ec entitlements requirements st =
     (if lenR requirements = 0 then (Inr True, st)
      else
        (case addAnonymousS ec entitlements st of
           (Inl e, st') \<Rightarrow> (Inl e, st')
         | (Inr entitlements', st') \<Rightarrow>
             (Inr (anySatisfies (readM st' entitlements')
                     (map (readM st') (elemsR st' requirements))), st')))"

text \<open>The loop of lines 77 to 79.\<close>
fun addIdentityS :: "string \<Rightarrow> string \<Rightarrow> mref list \<Rightarrow> store \<Rightarrow> error option \<times> store" where
  "addIdentityS scheme identity [] st = (None, st)"
| "addIdentityS scheme identity (req # rest) st =
     (case appendS (getM st req scheme) [identity] st of
        (l, st1) \<Rightarrow>
          (case assignM req scheme l st1 of
             Inl e \<Rightarrow> (Some e, st1)
           | Inr st2 \<Rightarrow> addIdentityS scheme identity rest st2))"

text \<open>Lines 83 to 90.\<close>
definition grantAndVerify ::
  "EntitlementsChecker \<Rightarrow> string \<Rightarrow> mref \<Rightarrow> rslice \<Rightarrow> store \<Rightarrow> (error + bool) \<times> store" where
  "grantAndVerify ec identity entitlements requirements st =
     (case deepCloneEntitlementsS entitlements st of
        (entitlements1, st1) \<Rightarrow>
          if grantReadyByDefault ec then
            (case appendS (getM st1 entitlements1 (defaultScheme ec)) [identity] st1 of
               (l, st2) \<Rightarrow>
                 (case assignM entitlements1 (defaultScheme ec) l st2 of
                    Inl e \<Rightarrow> (Inl e, st2)
                  | Inr st3 \<Rightarrow> VerifyEntitlementsS ec entitlements1 requirements st3))
          else VerifyEntitlementsS ec entitlements1 requirements st1)"

definition VerifyResourceEntitlementsS ::
  "EntitlementsChecker \<Rightarrow> string \<Rightarrow> string \<Rightarrow> mref \<Rightarrow> rslice \<Rightarrow> store \<Rightarrow>
   (error + bool) \<times> store" where
  "VerifyResourceEntitlementsS ec resource resourceName entitlements requirements st =
     (case deepCloneRequirementsS requirements st of
        (requirements1, st1) \<Rightarrow>
          let identity = identityOf resource resourceName in
          if lenR requirements1 = 0 then
            (case makeMap st1 of
               (m, st2) \<Rightarrow>
                 (case appendS NilSlice [identity] st2 of
                    (l, st3) \<Rightarrow>
                      (case appendR requirements1 (MapAt m) (writeM m (defaultScheme ec) l st3) of
                         (requirements2, st4) \<Rightarrow>
                           grantAndVerify ec identity entitlements requirements2 st4)))
          else
            (case addIdentityS (defaultScheme ec) identity (elemsR st1 requirements1) st1 of
               (Some e, st2) \<Rightarrow> (Inl e, st2)
             | (None, st2) \<Rightarrow> grantAndVerify ec identity entitlements requirements1 st2))"

text \<open>
  Every object of the store \<open>st0\<close> is in \<open>st\<close>, at the same address and with the same
  content: nothing that existed was written.
\<close>
definition preserved :: "store \<Rightarrow> store \<Rightarrow> bool" where
  "preserved st0 st \<longleftrightarrow>
     prefix (sarrs st0) (sarrs st) \<and> prefix (maps st0) (maps st) \<and> prefix (rarrs st0) (rarrs st)"

subsection \<open>The invariant of a run\<close>

text \<open>
  Relative to the store \<open>st0\<close> at the call: a slice is fresh when it is nil or its array
  was allocated after the call, a map reference when it is nil or its map was; the
  invariant says that nothing older was written, that the new maps hold fresh slices
  only, and that the new arrays of references hold fresh references only.
\<close>

definition freshS :: "store \<Rightarrow> sslice \<Rightarrow> bool" where
  "freshS st0 sl = (case sl of NilSlice \<Rightarrow> True | Slice a n c \<Rightarrow> length (sarrs st0) \<le> a)"

definition newM :: "store \<Rightarrow> store \<Rightarrow> nat \<Rightarrow> bool" where
  "newM st0 st a \<longleftrightarrow> length (maps st0) \<le> a \<and> a < length (maps st)"

definition freshM :: "store \<Rightarrow> store \<Rightarrow> mref \<Rightarrow> bool" where
  "freshM st0 st m = (case m of NilRef \<Rightarrow> True | MapAt a \<Rightarrow> newM st0 st a)"

definition freshR :: "store \<Rightarrow> store \<Rightarrow> rslice \<Rightarrow> bool" where
  "freshR st0 st r =
     (case r of NilReqs \<Rightarrow> True | Reqs a n c \<Rightarrow> length (rarrs st0) \<le> a \<and> a < length (rarrs st))"

definition mapsFresh :: "store \<Rightarrow> store \<Rightarrow> bool" where
  "mapsFresh st0 st \<longleftrightarrow>
     (\<forall>a k sl. newM st0 st a \<longrightarrow> fmlookup (maps st ! a) k = Some sl \<longrightarrow> freshS st0 sl)"

definition rarrsFresh :: "store \<Rightarrow> store \<Rightarrow> bool" where
  "rarrsFresh st0 st \<longleftrightarrow>
     (\<forall>r m. length (rarrs st0) \<le> r \<longrightarrow> r < length (rarrs st) \<longrightarrow> m \<in> set (rarrs st ! r)
        \<longrightarrow> freshM st0 st m)"

definition allocInv :: "store \<Rightarrow> store \<Rightarrow> bool" where
  "allocInv st0 st \<longleftrightarrow> preserved st0 st \<and> mapsFresh st0 st \<and> rarrsFresh st0 st"

definition grows :: "store \<Rightarrow> store \<Rightarrow> bool" where
  "grows st st' \<longleftrightarrow>
     length (sarrs st) \<le> length (sarrs st') \<and> length (maps st) \<le> length (maps st') \<and>
     length (rarrs st) \<le> length (rarrs st')"

subsection \<open>An example store\<close>

definition exampleStore :: store where
  "exampleStore =
     \<lparr> sarrs = [[''pages:read'']], maps = [fmupd ''bearer'' (Slice 0 1 1) fmempty], rarrs = [] \<rparr>"

definition exampleChecker :: EntitlementsChecker where
  "exampleChecker =
     \<lparr> anonymousEntitlements = [''x''], defaultScheme = ''bearer'', grantReadyByDefault = True \<rparr>"

section \<open>Properties of the value-level embedding\<close>

subsection \<open>Splitting\<close>

lemma Split_nonempty: "Split sep s \<noteq> []"
  by (induction s) auto

lemma Split_no_sep: "sep \<notin> set s \<Longrightarrow> Split sep s = [s]"
  by (induction s) auto

lemma Split_append_sep:
  "sep \<notin> set a \<Longrightarrow> Split sep (a @ sep # b) = a # Split sep b"
  by (induction a) auto

lemma length_expandShort: "length (expandShort ps) = 3 \<longleftrightarrow> length ps = 2 \<or> length ps = 3"
  by (auto simp: expandShort_def)

subsection \<open>The loops as quantifiers\<close>

lemma hasEntitlement_iff:
  "hasEntitlement es r \<longleftrightarrow> (\<exists>e\<in>set es. entitlementMatches e r)"
  by (induction es) auto

lemma satisfiesRequirement_iff:
  "satisfiesRequirement es rs \<longleftrightarrow> (\<forall>r\<in>set rs. \<exists>e\<in>set es. entitlementMatches e r)"
  by (induction rs) (auto simp: hasEntitlement_iff)

lemma satisfiesAndLoop_iff:
  "satisfiesAndLoop ents items \<longleftrightarrow>
     (\<forall>(re, rl)\<in>set items. \<exists>el. mapIndex ents re = Some el \<and> satisfiesRequirement el rl)"
  by (induction ents items rule: satisfiesAndLoop.induct) (auto split: option.splits)

lemma set_sorted_list_of_fmap:
  "set (sorted_list_of_fmap f) = {(k, v). fmlookup f k = Some v}"
  unfolding sorted_list_of_fmap_def
  by (auto simp: fmlookup_dom_iff)

lemma distinct_sorted_list_of_fmap: "distinct (map fst (sorted_list_of_fmap f))"
  unfolding sorted_list_of_fmap_def
  by (simp add: comp_def sorted_list_of_fset.rep_eq)

lemma mapItems_iff: "(k, v) \<in> set (mapItems m) \<longleftrightarrow> mapIndex m k = Some v"
  by (cases m) (auto simp: mapItems_def mapIndex_def set_sorted_list_of_fmap)

lemma satisfiesAndRequirements_iff:
  "satisfiesAndRequirements ents req \<longleftrightarrow>
     (\<forall>s rl. mapIndex req s = Some rl \<longrightarrow>
        (\<exists>el. mapIndex ents s = Some el \<and> (\<forall>r\<in>set rl. \<exists>e\<in>set el. entitlementMatches e r)))"
  unfolding satisfiesAndRequirements_def satisfiesAndLoop_iff
  by (fastforce simp: mapItems_iff satisfiesRequirement_iff)

lemma anySatisfies_iff:
  "anySatisfies ents reqs \<longleftrightarrow> (\<exists>q\<in>set reqs. satisfiesAndRequirements ents q)"
  by (induction reqs) auto

subsection \<open>Cloning returns an equal value\<close>

lemma fold_fmupd_lookup:
  "distinct (map fst items) \<Longrightarrow>
   fmlookup (fold (\<lambda>(key, l) clone. fmupd key l clone) items acc) k =
     (case map_of items k of None \<Rightarrow> fmlookup acc k | Some v \<Rightarrow> Some v)"
proof (induction items arbitrary: acc)
  case Nil
  then show ?case by simp
next
  case (Cons it items)
  obtain key l where it: "it = (key, l)" by (cases it)
  from Cons.prems have d: "distinct (map fst items)" and nk: "key \<notin> fst ` set items"
    by (auto simp: it)
  from nk have "map_of items key = None" by (simp add: map_of_eq_None_iff)
  with Cons.IH[OF d, of "fmupd key l acc"] show ?case
    by (auto simp: it split: option.splits)
qed

lemma cloneMap_id: "cloneMap f = f"
  by (rule fmap_ext) (simp add: cloneMap_def fold_fmupd_lookup distinct_sorted_list_of_fmap split: option.splits)

lemma deepCloneEntitlements_id: "deepCloneEntitlements m = m"
  by (cases m) (simp_all add: deepCloneEntitlements_def cloneMap_id)

lemma deepCloneRequirements_id: "deepCloneRequirements rs = rs"
  unfolding deepCloneRequirements_def
  by (induction rs) (auto simp: cloneMap_id split: gomap.splits)

subsection \<open>The anonymous entitlements\<close>

lemma addNew_Nil [simp]: "addNew [] l = l" by (simp add: addNew_def)
lemma addNew_Cons [simp]:
  "addNew (a # as) l = addNew as (if a \<in> set l then l else l @ [a])"
  by (simp add: addNew_def)

lemma addNew_ext: "\<exists>xs. addNew as l = l @ xs \<and> distinct xs \<and> set xs = set as - set l"
proof (induction as arbitrary: l)
  case Nil
  then show ?case by simp
next
  case (Cons a as)
  show ?case
  proof (cases "a \<in> set l")
    case True
    with Cons.IH[of l] show ?thesis by auto
  next
    case False
    from Cons.IH[of "l @ [a]"] obtain xs where
      xs: "addNew as (l @ [a]) = (l @ [a]) @ xs" "distinct xs" "set xs = set as - set (l @ [a])"
      by blast
    have "addNew (a # as) l = l @ (a # xs)" using False xs(1) by simp
    moreover have "distinct (a # xs)" using xs(2,3) by auto
    moreover have "set (a # xs) = set (a # as) - set l" using xs(3) False by auto
    ultimately show ?thesis by blast
  qed
qed

lemma addNew_same_iff: "addNew as l = l \<longleftrightarrow> set as \<subseteq> set l"
proof -
  obtain xs where xs: "addNew as l = l @ xs" "set xs = set as - set l"
    using addNew_ext by blast
  have "xs = [] \<longleftrightarrow> set as \<subseteq> set l" using xs(2) by (metis Diff_eq_empty_iff set_empty)
  then show ?thesis using xs(1) by simp
qed

lemma addNew_app_ne: "addNew as (l @ [a]) \<noteq> l"
proof -
  obtain xs where "addNew as (l @ [a]) = (l @ [a]) @ xs" using addNew_ext by blast
  then show ?thesis by simp
qed

lemma fold_anonStep_other:
  "scheme \<noteq> defaultScheme ec \<Longrightarrow> fold (anonStep ec scheme) as st = st"
  by (induction as arbitrary: st) (auto simp: anonStep_def split: prod.splits)

lemma fold_anonStep_default:
  "fold (anonStep ec (defaultScheme ec)) as (l, m, b) =
     (addNew as l,
      if addNew as l = l then m else fmupd (defaultScheme ec) (addNew as l) m,
      b \<or> addNew as l \<noteq> l)"
proof (induction as arbitrary: l m b)
  case Nil
  then show ?case by simp
next
  case (Cons a as)
  show ?case
  proof (cases "a \<in> set l")
    case True
    then show ?thesis using Cons.IH[of l m b] by (simp add: anonStep_def)
  next
    case False
    then show ?thesis
      using Cons.IH[of "l @ [a]" "fmupd (defaultScheme ec) (l @ [a]) m" True]
      by (simp add: anonStep_def addNew_app_ne)
  qed
qed

lemma fold_schemeStep:
  "distinct (map fst items) \<Longrightarrow>
   fold (schemeStep ec) items (m, b) =
     (case map_of items (defaultScheme ec) of
        None \<Rightarrow> (m, b)
      | Some l \<Rightarrow>
          (if addNew (anonymousEntitlements ec) l = l then m
           else fmupd (defaultScheme ec) (addNew (anonymousEntitlements ec) l) m,
           b \<or> addNew (anonymousEntitlements ec) l \<noteq> l))"
proof (induction items arbitrary: m b)
  case Nil
  then show ?case by simp
next
  case (Cons it items)
  obtain key l where it: "it = (key, l)" by (cases it)
  from Cons.prems have d: "distinct (map fst items)" and nk: "key \<notin> fst ` set items"
    by (auto simp: it)
  show ?case
  proof (cases "key = defaultScheme ec")
    case True
    with nk have none: "map_of items (defaultScheme ec) = None"
      by (simp add: map_of_eq_None_iff)
    show ?thesis
      using True none Cons.IH[OF d]
      by (simp add: it schemeStep_def fold_anonStep_default)
  next
    case False
    then show ?thesis
      using Cons.IH[OF d]
      by (simp add: it schemeStep_def fold_anonStep_other)
  qed
qed

lemma addAnonymous_none:
  "anonymousEntitlements ec = [] \<Longrightarrow> addAnonymous ec ents = Inr ents"
  by (simp add: addAnonymous_def)

lemma addAnonymous_nil:
  "anonymousEntitlements ec \<noteq> [] \<Longrightarrow> addAnonymous ec NilMap = Inl NilMapAssign"
  by (simp add: addAnonymous_def deepCloneEntitlements_def mapAssign_def)

lemma addAnonymous_map:
  "anonymousEntitlements ec \<noteq> [] \<Longrightarrow>
   addAnonymous ec (GoMap f) =
     Inr (GoMap (fmupd (defaultScheme ec)
       (case fmlookup f (defaultScheme ec) of
          None \<Rightarrow> anonymousEntitlements ec
        | Some l \<Rightarrow>
            if set (anonymousEntitlements ec) \<subseteq> set l then l @ anonymousEntitlements ec
            else addNew (anonymousEntitlements ec) l) f))"
  by (auto simp: addAnonymous_def deepCloneEntitlements_def cloneMap_id fold_schemeStep
      distinct_sorted_list_of_fmap mapAssign_def mapGet_def mapIndex_def addNew_same_iff
      split: option.splits)

subsection \<open>What is held after the anonymous entitlements are added\<close>

lemma held_iff:
  "(\<exists>hl. m = Some hl \<and> (\<forall>r\<in>set rl. \<exists>h\<in>set hl. P h r)) \<longleftrightarrow>
   (m \<noteq> None \<and> (\<forall>r\<in>set rl. \<exists>h\<in>set (case m of None \<Rightarrow> [] | Some l \<Rightarrow> l). P h r))"
  by (cases m) auto

lemma addAnonymous_held:
  assumes "anonymousEntitlements ec \<noteq> []"
  shows "\<exists>hl. addAnonymous ec (GoMap f) = Inr (GoMap (fmupd (defaultScheme ec) hl f)) \<and>
              set hl = set (mapGet (GoMap f) (defaultScheme ec)) \<union> set (anonymousEntitlements ec)"
proof (cases "fmlookup f (defaultScheme ec)")
  case None
  then show ?thesis using assms
    by (intro exI[of _ "anonymousEntitlements ec"]) (simp add: addAnonymous_map mapGet_def mapIndex_def)
next
  case (Some l)
  obtain new where new: "addNew (anonymousEntitlements ec) l = l @ new"
    "set new = set (anonymousEntitlements ec) - set l"
    using addNew_ext by blast
  show ?thesis
  proof (cases "set (anonymousEntitlements ec) \<subseteq> set l")
    case True
    then show ?thesis using assms Some
      by (intro exI[of _ "l @ anonymousEntitlements ec"])
         (simp add: addAnonymous_map mapGet_def mapIndex_def)
  next
    case False
    have "set (l @ new) = set l \<union> set (anonymousEntitlements ec)" using new(2) by auto
    then show ?thesis using assms Some False new(1)
      by (intro exI[of _ "l @ new"]) (simp add: addAnonymous_map mapGet_def mapIndex_def)
  qed
qed

subsection \<open>Assignments to map entries\<close>

lemma mapAssign_entries:
  "mapAssign m k v = (if m = NilMap then Inl NilMapAssign else Inr (GoMap (fmupd k v (entries m))))"
  by (cases m) (simp_all add: mapAssign_def entries_def)

lemma addIdentity_all:
  "addIdentity scheme identity reqs =
     (if NilMap \<in> set reqs then Inl NilMapAssign
      else Inr (map (\<lambda>entry. GoMap (fmupd scheme (mapGet entry scheme @ [identity]) (entries entry)))
                  reqs))"
  by (induction reqs) (auto simp: mapAssign_entries)

section \<open>Properties of the store-level embedding\<close>

lemma prefix_update: "prefix xs ys \<Longrightarrow> length xs \<le> a \<Longrightarrow> prefix xs (ys[a := v])"
  by (auto simp: prefix_def list_update_append)

lemma grows_refl [simp]: "grows st st"
  by (simp add: grows_def)

lemma grows_trans: "grows a b \<Longrightarrow> grows b c \<Longrightarrow> grows a c"
  by (auto simp: grows_def)

lemma newM_grows: "newM st0 st a \<Longrightarrow> grows st st' \<Longrightarrow> newM st0 st' a"
  by (auto simp: newM_def grows_def)

lemma freshM_grows: "freshM st0 st m \<Longrightarrow> grows st st' \<Longrightarrow> freshM st0 st' m"
  by (auto simp: freshM_def newM_grows split: mref.splits)

lemma freshR_grows: "freshR st0 st r \<Longrightarrow> grows st st' \<Longrightarrow> freshR st0 st' r"
  by (auto simp: freshR_def grows_def split: rslice.splits)

lemma allocInv_refl: "allocInv st st"
  by (auto simp: allocInv_def preserved_def mapsFresh_def rarrsFresh_def newM_def)

lemma allocInv_lengths:
  "allocInv st0 st \<Longrightarrow> length (sarrs st0) \<le> length (sarrs st) \<and> length (maps st0) \<le> length (maps st)
     \<and> length (rarrs st0) \<le> length (rarrs st)"
  by (auto simp: allocInv_def preserved_def prefix_length_le)

subsection \<open>Operations on string arrays\<close>

lemma newM_sarrs [simp]: "newM st0 (st\<lparr>sarrs := x\<rparr>) a = newM st0 st a"
  by (simp add: newM_def)

lemma newM_rarrs [simp]: "newM st0 (st\<lparr>rarrs := x\<rparr>) a = newM st0 st a"
  by (simp add: newM_def)

lemma freshM_NilM [simp]: "freshM st0 st NilRef"
  by (simp add: freshM_def)

lemma freshM_M [simp]: "freshM st0 st (MapAt a) = newM st0 st a"
  by (simp add: freshM_def)

lemma freshM_sarrs [simp]: "freshM st0 (st\<lparr>sarrs := x\<rparr>) m = freshM st0 st m"
  by (cases m) simp_all

lemma freshM_maps_app: "freshM st0 st m \<Longrightarrow> freshM st0 (st\<lparr>maps := maps st @ xs\<rparr>) m"
  by (cases m) (auto simp: newM_def)

lemma mapsFresh_sarrs [simp]: "mapsFresh st0 (st\<lparr>sarrs := x\<rparr>) = mapsFresh st0 st"
  by (simp add: mapsFresh_def newM_def)

lemma rarrsFresh_sarrs [simp]: "rarrsFresh st0 (st\<lparr>sarrs := x\<rparr>) = rarrsFresh st0 st"
  by (simp add: rarrsFresh_def)

lemma allocInv_makeS:
  "allocInv st0 st \<Longrightarrow> allocInv st0 (snd (makeS n st)) \<and> grows st (snd (makeS n st)) \<and> freshS st0 (fst (makeS n st))"
  using allocInv_lengths[of st0 st]
  by (auto simp: makeS_def grows_def freshS_def allocInv_def preserved_def)

lemma allocInv_copyS:
  "allocInv st0 st \<Longrightarrow> freshS st0 dst \<Longrightarrow> allocInv st0 (copyS dst xs st) \<and> grows st (copyS dst xs st)"
  by (cases dst) (auto simp: grows_def freshS_def allocInv_def preserved_def prefix_update)

lemma allocInv_appendS:
  "allocInv st0 st \<Longrightarrow> freshS st0 sl \<Longrightarrow>
   allocInv st0 (snd (appendS sl xs st)) \<and> grows st (snd (appendS sl xs st)) \<and>
   freshS st0 (fst (appendS sl xs st))"
  using allocInv_lengths[of st0 st]
  by (cases sl) (auto simp: grows_def freshS_def allocInv_def preserved_def prefix_update Let_def)

subsection \<open>Operations on maps\<close>

lemma allocInv_makeMap:
  "allocInv st0 st \<Longrightarrow> allocInv st0 (snd (makeMap st)) \<and> grows st (snd (makeMap st)) \<and>
     newM st0 (snd (makeMap st)) (fst (makeMap st))"
proof -
  assume g: "allocInv st0 st"
  let ?st = "st\<lparr>maps := maps st @ [fmempty]\<rparr>"
  have len: "length (maps st0) \<le> length (maps st)" using allocInv_lengths[OF g] by simp
  have p: "preserved st0 ?st" using g by (simp add: allocInv_def preserved_def)
  have m: "mapsFresh st0 ?st"
    unfolding mapsFresh_def
  proof (intro allI impI)
    fix a k sl
    assume n: "newM st0 ?st a" and l: "fmlookup (maps ?st ! a) k = Some sl"
    show "freshS st0 sl"
    proof (cases "a < length (maps st)")
      case True
      then have "newM st0 st a" "fmlookup (maps st ! a) k = Some sl"
        using n l by (simp_all add: newM_def nth_append)
      then show ?thesis using g by (auto simp: allocInv_def mapsFresh_def)
    next
      case False
      then have "a = length (maps st)" using n by (simp add: newM_def)
      then show ?thesis using l by simp
    qed
  qed
  have r: "rarrsFresh st0 ?st"
    using g by (auto simp: allocInv_def rarrsFresh_def intro: freshM_maps_app)
  show ?thesis using p m r len by (simp add: makeMap_def allocInv_def grows_def newM_def)
qed

lemma allocInv_writeM:
  assumes g: "allocInv st0 st" and c: "length (maps st0) \<le> c" and v: "freshS st0 v"
  shows "allocInv st0 (writeM c k v st) \<and> grows st (writeM c k v st)"
proof -
  let ?st = "writeM c k v st"
  have p: "preserved st0 ?st" using g c by (simp add: allocInv_def preserved_def writeM_def prefix_update)
  have m: "mapsFresh st0 ?st"
    unfolding mapsFresh_def
  proof (intro allI impI)
    fix a k' sl
    assume n: "newM st0 ?st a" and l: "fmlookup (maps ?st ! a) k' = Some sl"
    from n have n': "newM st0 st a" by (simp add: newM_def writeM_def)
    show "freshS st0 sl"
    proof (cases "a = c \<and> k' = k")
      case True
      then have "sl = v" using l n' by (simp add: writeM_def newM_def)
      then show ?thesis using v by simp
    next
      case False
      then have "fmlookup (maps st ! a) k' = Some sl"
        using l n' by (cases "a = c") (auto simp: writeM_def newM_def)
      then show ?thesis using g n' by (auto simp: allocInv_def mapsFresh_def)
    qed
  qed
  have fm: "freshM st0 ?st m = freshM st0 st m" for m
    by (cases m) (simp_all add: newM_def writeM_def)
  have r: "rarrsFresh st0 ?st"
    using g by (simp add: allocInv_def rarrsFresh_def fm) (simp add: writeM_def)
  show ?thesis using p m r by (simp add: allocInv_def grows_def writeM_def)
qed

lemma allocInv_getM:
  "allocInv st0 st \<Longrightarrow> freshM st0 st m \<Longrightarrow> freshS st0 (getM st m k)"
  by (cases m) (auto simp: getM_def allocInv_def mapsFresh_def freshS_def split: option.splits)

subsection \<open>Operations on arrays of map references\<close>

lemma mapsFresh_rarrs [simp]: "mapsFresh st0 (st\<lparr>rarrs := x\<rparr>) = mapsFresh st0 st"
  by (simp add: mapsFresh_def newM_def)

lemma freshM_rarrs [simp]: "freshM st0 (st\<lparr>rarrs := x\<rparr>) m = freshM st0 st m"
  by (cases m) simp_all

lemma allocInv_makeR:
  "allocInv st0 st \<Longrightarrow> allocInv st0 (snd (makeR n st)) \<and> grows st (snd (makeR n st)) \<and>
     length (rarrs st0) \<le> fst (makeR n st) \<and> fst (makeR n st) < length (rarrs (snd (makeR n st)))"
  using allocInv_lengths[of st0 st]
  by (auto simp: makeR_def allocInv_def preserved_def grows_def rarrsFresh_def nth_append
      split: if_splits)

lemma allocInv_setR:
  assumes g: "allocInv st0 st" and a: "length (rarrs st0) \<le> a" and m: "freshM st0 st m"
  shows "allocInv st0 (setR a i m st) \<and> grows st (setR a i m st)"
proof -
  have "rarrsFresh st0 (setR a i m st)"
    unfolding rarrsFresh_def setR_def
  proof (intro allI impI)
    fix r m'
    assume r: "length (rarrs st0) \<le> r"
      "r < length (rarrs (st\<lparr>rarrs := (rarrs st)[a := (rarrs st ! a)[i := m]]\<rparr>))"
      "m' \<in> set (rarrs (st\<lparr>rarrs := (rarrs st)[a := (rarrs st ! a)[i := m]]\<rparr>) ! r)"
    then have "m' = m \<or> m' \<in> set (rarrs st ! r)"
      using set_update_subset_insert[of "rarrs st ! a" i m]
      by (cases "r = a") auto
    then show "freshM st0 (st\<lparr>rarrs := (rarrs st)[a := (rarrs st ! a)[i := m]]\<rparr>) m'"
      using m g r(1,2) by (auto simp: allocInv_def rarrsFresh_def)
  qed
  then show ?thesis using g a by (simp add: allocInv_def preserved_def setR_def grows_def prefix_update)
qed

lemma allocInv_elemsR:
  "allocInv st0 st \<Longrightarrow> freshR st0 st r \<Longrightarrow> m \<in> set (elemsR st r) \<Longrightarrow> freshM st0 st m"
  by (cases r) (auto simp: allocInv_def rarrsFresh_def freshR_def dest: in_set_takeD)

lemma allocInv_appendR:
  assumes g: "allocInv st0 st" and r: "freshR st0 st r" and m: "freshM st0 st m"
  shows "allocInv st0 (snd (appendR r m st)) \<and> grows st (snd (appendR r m st)) \<and>
         freshR st0 (snd (appendR r m st)) (fst (appendR r m st))"
proof (cases r)
  case NilReqs
  have len: "length (rarrs st0) \<le> length (rarrs st)" using allocInv_lengths[OF g] by simp
  show ?thesis using g m len
    by (auto simp: NilReqs Let_def allocInv_def preserved_def grows_def freshR_def rarrsFresh_def nth_append
        split: if_splits)
next
  case (Reqs a n c)
  have len: "length (rarrs st0) \<le> length (rarrs st)" using allocInv_lengths[OF g] by simp
  from r Reqs have a: "length (rarrs st0) \<le> a" "a < length (rarrs st)" by (simp_all add: freshR_def)
  show ?thesis
  proof (cases "n + 1 \<le> c")
    case True
    have "appendR r m st = (Reqs a (n + 1) c, setR a n m st)"
      using True by (simp add: Reqs setR_def)
    then show ?thesis using allocInv_setR[OF g a(1) m, of n] a
      by (simp add: freshR_def setR_def)
  next
    case False
    have old: "\<And>x. x \<in> set (take n (rarrs st ! a)) \<Longrightarrow> freshM st0 st x"
      using g a by (auto simp: allocInv_def rarrsFresh_def dest: in_set_takeD)
    show ?thesis using False g m len old
      by (auto simp: Reqs Let_def allocInv_def preserved_def grows_def freshR_def rarrsFresh_def nth_append
          split: if_splits)
  qed
qed

subsection \<open>The loops keep the invariant\<close>

lemma fold_inv:
  assumes "P s" and "\<And>x s. x \<in> set xs \<Longrightarrow> P s \<Longrightarrow> P (f x s)"
  shows "P (fold f xs s)"
  using assms by (induction xs arbitrary: s) auto

lemma freshS_NilS [simp]: "freshS st0 NilSlice"
  by (simp add: freshS_def)

lemma cloneEntry_inv:
  assumes g: "allocInv st0 st" and c: "length (maps st0) \<le> c"
  shows "allocInv st0 (cloneEntry c kl st) \<and> grows st (cloneEntry c kl st)"
proof -
  obtain key l where kl: "kl = (key, l)" by (cases kl)
  show ?thesis
  proof (cases "l = NilSlice")
    case True
    then show ?thesis using allocInv_writeM[OF g c, of NilSlice key] by (simp add: kl cloneEntry_def)
  next
    case False
    obtain newList st1 where mk: "makeS (lenS l) st = (newList, st1)" by (cases "makeS (lenS l) st")
    from allocInv_makeS[OF g, of "lenS l"] mk
    have g1: "allocInv st0 st1" and gr1: "grows st st1" and f: "freshS st0 newList" by simp_all
    from allocInv_copyS[OF g1 f, of "elemsS st1 l"]
    have g2: "allocInv st0 (copyS newList (elemsS st1 l) st1)"
      and gr2: "grows st1 (copyS newList (elemsS st1 l) st1)" by simp_all
    from allocInv_writeM[OF g2 c f, of key]
    have "allocInv st0 (writeM c key newList (copyS newList (elemsS st1 l) st1))"
      and "grows (copyS newList (elemsS st1 l) st1)
             (writeM c key newList (copyS newList (elemsS st1 l) st1))" by simp_all
    then show ?thesis using False mk gr1 gr2
      by (auto simp: kl cloneEntry_def intro: grows_trans)
  qed
qed

lemma cloneMapS_inv:
  assumes g: "allocInv st0 st"
  shows "allocInv st0 (snd (cloneMapS a st)) \<and> grows st (snd (cloneMapS a st)) \<and>
         newM st0 (snd (cloneMapS a st)) (fst (cloneMapS a st))"
proof -
  obtain c st1 where mk: "makeMap st = (c, st1)" by (cases "makeMap st")
  from allocInv_makeMap[OF g] mk
  have g1: "allocInv st0 st1" and gr1: "grows st st1" and n: "newM st0 st1 c" by simp_all
  from n have c: "length (maps st0) \<le> c" by (simp add: newM_def)
  let ?st = "fold (cloneEntry c) (sorted_list_of_fmap (maps st ! a)) st1"
  have "allocInv st0 ?st \<and> grows st1 ?st"
    by (rule fold_inv[where P = "\<lambda>s. allocInv st0 s \<and> grows st1 s"])
       (use g1 c in \<open>auto dest: cloneEntry_inv[of st0 _ c] intro: grows_trans\<close>)
  then show ?thesis using mk gr1 n
    by (auto simp: cloneMapS_def intro: grows_trans newM_grows)
qed

lemma deepCloneEntitlementsS_inv:
  assumes g: "allocInv st0 st"
  shows "allocInv st0 (snd (deepCloneEntitlementsS m st)) \<and>
         grows st (snd (deepCloneEntitlementsS m st)) \<and>
         freshM st0 (snd (deepCloneEntitlementsS m st)) (fst (deepCloneEntitlementsS m st))"
proof (cases m)
  case NilRef
  then show ?thesis using g by simp
next
  case (MapAt a)
  then show ?thesis using cloneMapS_inv[OF g, of a]
    by (simp add: split_beta)
qed

lemma cloneReq_inv:
  assumes g: "allocInv st0 st" and c: "length (rarrs st0) \<le> clone"
  shows "allocInv st0 (cloneReq clone x st) \<and> grows st (cloneReq clone x st)"
proof -
  obtain i reqMap where x: "x = (i, reqMap)" by (cases x)
  show ?thesis
  proof (cases reqMap)
    case NilRef
    then show ?thesis using g by (simp add: x cloneReq_def)
  next
    case (MapAt b)
    obtain newMap st' where cl: "cloneMapS b st = (newMap, st')" by (cases "cloneMapS b st")
    from cloneMapS_inv[OF g, of b] cl
    have g1: "allocInv st0 st'" and gr1: "grows st st'" and n: "newM st0 st' newMap" by simp_all
    from allocInv_setR[OF g1 c, of "MapAt newMap" i] n
    have "allocInv st0 (setR clone i (MapAt newMap) st')" and "grows st' (setR clone i (MapAt newMap) st')"
      by simp_all
    then show ?thesis using gr1 cl by (auto simp: x MapAt cloneReq_def intro: grows_trans)
  qed
qed

lemma deepCloneRequirementsS_inv:
  assumes g: "allocInv st0 st"
  shows "allocInv st0 (snd (deepCloneRequirementsS r st)) \<and>
         grows st (snd (deepCloneRequirementsS r st)) \<and>
         freshR st0 (snd (deepCloneRequirementsS r st)) (fst (deepCloneRequirementsS r st))"
proof (cases r)
  case NilReqs
  then show ?thesis using g by (simp add: freshR_def)
next
  case (Reqs a n c)
  obtain clone st1 where mk: "makeR n st = (clone, st1)" by (cases "makeR n st")
  from allocInv_makeR[OF g, of n] mk
  have g1: "allocInv st0 st1" and gr1: "grows st st1" and lo: "length (rarrs st0) \<le> clone"
    and hi: "clone < length (rarrs st1)" by simp_all
  let ?st = "fold (cloneReq clone) (enumerate 0 (take n (rarrs st ! a))) st1"
  have "allocInv st0 ?st \<and> grows st1 ?st"
    by (rule fold_inv[where P = "\<lambda>s. allocInv st0 s \<and> grows st1 s"])
       (use g1 lo in \<open>auto dest: cloneReq_inv[of st0 _ clone] intro: grows_trans\<close>)
  then show ?thesis using mk gr1 lo hi
    by (auto simp: Reqs freshR_def grows_def)
qed

lemma anonStepS_inv:
  assumes g: "allocInv st0 st" and f: "freshS st0 el" and c: "length (maps st0) \<le> c"
  shows "allocInv st0 (fst (snd (anonStepS ec c scheme anon (el, st, b)))) \<and>
         grows st (fst (snd (anonStepS ec c scheme anon (el, st, b)))) \<and>
         freshS st0 (fst (anonStepS ec c scheme anon (el, st, b)))"
proof (cases "scheme = defaultScheme ec \<and> anon \<notin> set (elemsS st el)")
  case True
  obtain el' st1 where ap: "appendS el [anon] st = (el', st1)" by (cases "appendS el [anon] st")
  from allocInv_appendS[OF g f, of "[anon]"] ap
  have g1: "allocInv st0 st1" and gr1: "grows st st1" and f1: "freshS st0 el'" by simp_all
  from allocInv_writeM[OF g1 c f1, of scheme]
  have "allocInv st0 (writeM c scheme el' st1)" and "grows st1 (writeM c scheme el' st1)" by simp_all
  then show ?thesis using True ap gr1 f1 by (auto simp: anonStepS_def intro: grows_trans)
next
  case False
  then show ?thesis using g f by (auto simp: anonStepS_def)
qed

lemma schemeStepS_inv:
  assumes g: "allocInv st0 st" and f: "freshS st0 (snd x)" and c: "length (maps st0) \<le> c"
  shows "allocInv st0 (fst (schemeStepS ec c x (st, b))) \<and> grows st (fst (schemeStepS ec c x (st, b)))"
proof -
  obtain scheme el where x: "x = (scheme, el)" by (cases x)
  let ?r = "fold (anonStepS ec c scheme) (anonymousEntitlements ec) (el, st, b)"
  have "allocInv st0 (fst (snd ?r)) \<and> grows st (fst (snd ?r)) \<and> freshS st0 (fst ?r)"
  proof (rule fold_inv[where P = "\<lambda>s. allocInv st0 (fst (snd s)) \<and> grows st (fst (snd s)) \<and> freshS st0 (fst s)"])
    show "allocInv st0 (fst (snd (el, st, b))) \<and> grows st (fst (snd (el, st, b))) \<and> freshS st0 (fst (el, st, b))"
      using g f by (simp add: x)
  next
    fix a and s :: "sslice \<times> store \<times> bool"
    assume p: "allocInv st0 (fst (snd s)) \<and> grows st (fst (snd s)) \<and> freshS st0 (fst s)"
    obtain el1 st1 b1 where s: "s = (el1, st1, b1)" by (cases s)
    from p s have g1: "allocInv st0 st1" and gr1: "grows st st1" and f1: "freshS st0 el1" by simp_all
    from anonStepS_inv[OF g1 f1 c, of ec scheme a b1] gr1
    show "allocInv st0 (fst (snd (anonStepS ec c scheme a s))) \<and>
          grows st (fst (snd (anonStepS ec c scheme a s))) \<and>
          freshS st0 (fst (anonStepS ec c scheme a s))"
      by (auto simp: s intro: grows_trans)
  qed
  then show ?thesis by (simp add: x schemeStepS_def)
qed

lemma addAnonymousS_inv:
  assumes g: "allocInv st0 st"
  shows "allocInv st0 (snd (addAnonymousS ec m st)) \<and> grows st (snd (addAnonymousS ec m st))"
proof (cases "length (anonymousEntitlements ec) > 0")
  case False
  then show ?thesis using g by (simp add: addAnonymousS_def)
next
  case True
  obtain m1 st1 where dc: "deepCloneEntitlementsS m st = (m1, st1)"
    by (cases "deepCloneEntitlementsS m st")
  from deepCloneEntitlementsS_inv[OF g, of m] dc
  have g1: "allocInv st0 st1" and gr1: "grows st st1" and f1: "freshM st0 st1 m1" by simp_all
  show ?thesis
  proof (cases m1)
    case NilRef
    let ?l = "getM st1 NilRef (defaultScheme ec)"
    have "freshS st0 ?l" using allocInv_getM[OF g1, of NilRef] by simp
    from allocInv_appendS[OF g1 this, of "anonymousEntitlements ec"]
    show ?thesis using True dc NilRef gr1
      by (auto simp: addAnonymousS_def split_beta intro: grows_trans)
  next
    case (MapAt clone)
    with f1 have n1: "newM st0 st1 clone" by simp
    then have c: "length (maps st0) \<le> clone" by (simp add: newM_def)
    let ?items = "sorted_list_of_fmap (maps st1 ! clone)"
    have items: "\<And>x. x \<in> set ?items \<Longrightarrow> freshS st0 (snd x)"
      using g1 n1 by (auto simp: set_sorted_list_of_fmap allocInv_def mapsFresh_def)
    obtain st2 added where fo: "fold (schemeStepS ec clone) ?items (st1, False) = (st2, added)"
      by (cases "fold (schemeStepS ec clone) ?items (st1, False)")
    have "allocInv st0 (fst (fold (schemeStepS ec clone) ?items (st1, False))) \<and>
          grows st1 (fst (fold (schemeStepS ec clone) ?items (st1, False)))"
    proof (rule fold_inv[where P = "\<lambda>s. allocInv st0 (fst s) \<and> grows st1 (fst s)"])
      show "allocInv st0 (fst (st1, False)) \<and> grows st1 (fst (st1, False))" using g1 by simp
    next
      fix x and s :: "store \<times> bool"
      assume xin: "x \<in> set ?items" and p: "allocInv st0 (fst s) \<and> grows st1 (fst s)"
      obtain sa sb where s: "s = (sa, sb)" by (cases s)
      from schemeStepS_inv[OF _ items[OF xin] c, of sa ec sb] p s
      show "allocInv st0 (fst (schemeStepS ec clone x s)) \<and> grows st1 (fst (schemeStepS ec clone x s))"
        by (auto intro: grows_trans)
    qed
    with fo have g2: "allocInv st0 st2" and gr2: "grows st1 st2" by simp_all
    show ?thesis
    proof (cases added)
      case True
      then show ?thesis using \<open>0 < length (anonymousEntitlements ec)\<close> dc MapAt fo g2 gr1 gr2
        by (auto simp: addAnonymousS_def intro: grows_trans)
    next
      case False
      let ?l = "getM st2 (MapAt clone) (defaultScheme ec)"
      have "freshM st0 st2 (MapAt clone)" using n1 gr2 by (simp add: newM_grows)
      then have fl: "freshS st0 ?l" using allocInv_getM[OF g2] by simp
      obtain l st3 where ap: "appendS ?l (anonymousEntitlements ec) st2 = (l, st3)"
        by (cases "appendS ?l (anonymousEntitlements ec) st2")
      from allocInv_appendS[OF g2 fl, of "anonymousEntitlements ec"] ap
      have g3: "allocInv st0 st3" and gr3: "grows st2 st3" and f3: "freshS st0 l" by simp_all
      from allocInv_writeM[OF g3 c f3, of "defaultScheme ec"]
      show ?thesis using \<open>0 < length (anonymousEntitlements ec)\<close> dc MapAt fo False ap gr1 gr2 gr3
        by (auto simp: addAnonymousS_def intro: grows_trans)
    qed
  qed
qed

lemma VerifyEntitlementsS_inv:
  assumes g: "allocInv st0 st"
  shows "allocInv st0 (snd (VerifyEntitlementsS ec m r st)) \<and> grows st (snd (VerifyEntitlementsS ec m r st))"
  using g addAnonymousS_inv[OF g, of ec m]
  by (auto simp: VerifyEntitlementsS_def split: prod.splits sum.splits)

lemma addIdentityS_inv:
  "allocInv st0 st \<Longrightarrow> (\<forall>req\<in>set reqs. freshM st0 st req) \<Longrightarrow>
   allocInv st0 (snd (addIdentityS scheme identity reqs st)) \<and>
   grows st (snd (addIdentityS scheme identity reqs st))"
proof (induction reqs arbitrary: st)
  case Nil
  then show ?case by simp
next
  case (Cons req rest)
  from Cons.prems have g: "allocInv st0 st" and fr: "freshM st0 st req"
    and frs: "\<forall>q\<in>set rest. freshM st0 st q" by simp_all
  have fl: "freshS st0 (getM st req scheme)" using allocInv_getM[OF g fr] .
  obtain l st1 where ap: "appendS (getM st req scheme) [identity] st = (l, st1)"
    by (cases "appendS (getM st req scheme) [identity] st")
  from allocInv_appendS[OF g fl, of "[identity]"] ap
  have g1: "allocInv st0 st1" and gr1: "grows st st1" and f1: "freshS st0 l" by simp_all
  show ?case
  proof (cases req)
    case NilRef
    then show ?thesis using ap g1 gr1 by simp
  next
    case (MapAt a)
    with fr have "length (maps st0) \<le> a" by (simp add: newM_def)
    from allocInv_writeM[OF g1 this f1, of scheme]
    have g2: "allocInv st0 (writeM a scheme l st1)" and gr2: "grows st1 (writeM a scheme l st1)"
      by simp_all
    have "\<forall>q\<in>set rest. freshM st0 (writeM a scheme l st1) q"
      using frs gr1 gr2 by (auto intro: freshM_grows grows_trans)
    from Cons.IH[OF g2 this] gr1 gr2
    show ?thesis using ap MapAt by (auto intro: grows_trans)
  qed
qed

lemma grantAndVerify_inv:
  assumes g: "allocInv st0 st"
  shows "allocInv st0 (snd (grantAndVerify ec identity m r st))"
proof -
  obtain m1 st1 where dc: "deepCloneEntitlementsS m st = (m1, st1)"
    by (cases "deepCloneEntitlementsS m st")
  from deepCloneEntitlementsS_inv[OF g, of m] dc
  have g1: "allocInv st0 st1" and f1: "freshM st0 st1 m1" by simp_all
  show ?thesis
  proof (cases "grantReadyByDefault ec")
    case False
    then show ?thesis using dc VerifyEntitlementsS_inv[OF g1, of ec m1 r]
      by (simp add: grantAndVerify_def)
  next
    case True
    have fl: "freshS st0 (getM st1 m1 (defaultScheme ec))" using allocInv_getM[OF g1 f1] .
    obtain l st2 where ap: "appendS (getM st1 m1 (defaultScheme ec)) [identity] st1 = (l, st2)"
      by (cases "appendS (getM st1 m1 (defaultScheme ec)) [identity] st1")
    from allocInv_appendS[OF g1 fl, of "[identity]"] ap
    have g2: "allocInv st0 st2" and gr2: "grows st1 st2" and f2: "freshS st0 l" by simp_all
    show ?thesis
    proof (cases m1)
      case NilRef
      then show ?thesis using True dc ap g2 by (simp add: grantAndVerify_def)
    next
      case (MapAt a)
      with f1 have "length (maps st0) \<le> a" by (simp add: newM_def)
      from allocInv_writeM[OF g2 this f2, of "defaultScheme ec"]
      have "allocInv st0 (writeM a (defaultScheme ec) l st2)" by simp
      from VerifyEntitlementsS_inv[OF this, of ec m1 r]
      show ?thesis using True dc ap MapAt by (simp add: grantAndVerify_def)
    qed
  qed
qed

lemma VerifyResourceEntitlementsS_inv:
  assumes g: "allocInv st0 st"
  shows "allocInv st0 (snd (VerifyResourceEntitlementsS ec resource resourceName m r st))"
proof -
  obtain r1 st1 where dc: "deepCloneRequirementsS r st = (r1, st1)"
    by (cases "deepCloneRequirementsS r st")
  from deepCloneRequirementsS_inv[OF g, of r] dc
  have g1: "allocInv st0 st1" and f1: "freshR st0 st1 r1" by simp_all
  let ?id = "identityOf resource resourceName"
  show ?thesis
  proof (cases "lenR r1 = 0")
    case True
    obtain c st2 where mk: "makeMap st1 = (c, st2)" by (cases "makeMap st1")
    from allocInv_makeMap[OF g1] mk
    have g2: "allocInv st0 st2" and gr2: "grows st1 st2" and n: "newM st0 st2 c" by simp_all
    obtain l st3 where ap: "appendS NilSlice [?id] st2 = (l, st3)" by (cases "appendS NilSlice [?id] st2")
    from allocInv_appendS[OF g2, of NilSlice "[?id]"] ap
    have g3: "allocInv st0 st3" and gr3: "grows st2 st3" and f3: "freshS st0 l" by simp_all
    from n have lo: "length (maps st0) \<le> c" by (simp add: newM_def)
    let ?st4 = "writeM c (defaultScheme ec) l st3"
    from allocInv_writeM[OF g3 lo f3, of "defaultScheme ec"]
    have g4: "allocInv st0 ?st4" and gr4: "grows st3 ?st4" by simp_all
    have fr: "freshR st0 ?st4 r1" using f1 gr2 gr3 gr4 by (auto intro: freshR_grows grows_trans)
    have fm: "freshM st0 ?st4 (MapAt c)" using n gr3 gr4 by (auto intro: newM_grows grows_trans)
    obtain r2 st5 where ar: "appendR r1 (MapAt c) ?st4 = (r2, st5)" by (cases "appendR r1 (MapAt c) ?st4")
    from allocInv_appendR[OF g4 fr fm] ar have g5: "allocInv st0 st5" by simp
    from grantAndVerify_inv[OF g5, of ec ?id m r2]
    show ?thesis using True dc mk ap ar
      by (simp add: VerifyResourceEntitlementsS_def Let_def)
  next
    case False
    have "\<forall>req\<in>set (elemsR st1 r1). freshM st0 st1 req"
      using allocInv_elemsR[OF g1 f1] by blast
    from addIdentityS_inv[OF g1 this, of "defaultScheme ec" ?id]
    have g2: "allocInv st0 (snd (addIdentityS (defaultScheme ec) ?id (elemsR st1 r1) st1))" by simp
    obtain e st2 where ai: "addIdentityS (defaultScheme ec) ?id (elemsR st1 r1) st1 = (e, st2)"
      by (cases "addIdentityS (defaultScheme ec) ?id (elemsR st1 r1) st1")
    with g2 have g2': "allocInv st0 st2" by simp
    show ?thesis
    proof (cases e)
      case None
      then show ?thesis using False dc ai grantAndVerify_inv[OF g2', of ec ?id m r1]
        by (simp add: VerifyResourceEntitlementsS_def Let_def)
    next
      case (Some err)
      then show ?thesis using False dc ai g2'
        by (simp add: VerifyResourceEntitlementsS_def Let_def)
    qed
  qed
qed

subsection \<open>What a preserved store means for a map of the caller\<close>

lemma prefix_nth: "prefix xs ys \<Longrightarrow> i < length xs \<Longrightarrow> ys ! i = xs ! i"
  by (auto simp: prefix_def nth_append)

lemma preserved_readM:
  assumes p: "preserved st st'" and a: "a < length (maps st)"
    and wf: "\<And>k b n c. fmlookup (maps st ! a) k = Some (Slice b n c) \<Longrightarrow> b < length (sarrs st)"
  shows "readM st' (MapAt a) = readM st (MapAt a)"
proof -
  have m: "maps st' ! a = maps st ! a" using p a by (simp add: preserved_def prefix_nth)
  have "fmmap (elemsS st') (maps st ! a) = fmmap (elemsS st) (maps st ! a)"
  proof (rule fmap_ext)
    fix k
    show "fmlookup (fmmap (elemsS st') (maps st ! a)) k = fmlookup (fmmap (elemsS st) (maps st ! a)) k"
    proof (cases "fmlookup (maps st ! a) k")
      case None
      then show ?thesis by simp
    next
      case (Some sl)
      show ?thesis
      proof (cases sl)
        case NilSlice
        then show ?thesis using Some by simp
      next
        case (Slice b n c)
        with Some wf have "b < length (sarrs st)" by blast
        then have "sarrs st' ! b = sarrs st ! b" using p by (simp add: preserved_def prefix_nth)
        then show ?thesis using Some Slice by simp
      qed
    qed
  qed
  then show ?thesis by (simp add: readM_def m)
qed

section \<open>The claims\<close>

text \<open>
  C1. The claim reads: on a non-empty requirements list \<open>VerifyEntitlements\<close> returns true
  exactly when some entry is satisfied by the entitlements mapping it is given, and an
  entry with a scheme key absent from that mapping fails. With an anonymous entitlement
  configured the code evaluates the entries on the mapping extended under the default
  scheme: on the empty mapping, with \<open>pages:read\<close> anonymous, the entry that requires
  \<open>pages:/foo:read\<close> under \<open>bearer\<close> succeeds although the mapping has no key \<open>bearer\<close>.
\<close>
theorem C1_counterexample:
  "VerifyEntitlements
     \<lparr>anonymousEntitlements = [''pages:read''], defaultScheme = ''bearer'', grantReadyByDefault = False\<rparr>
     (GoMap fmempty) [GoMap (fmupd ''bearer'' [''pages:/foo:read''] fmempty)] = Inr True
   \<and> mapIndex (GoMap fmempty) ''bearer'' = None"
  by (simp add: VerifyEntitlements_def addAnonymous_map satisfiesAndRequirements_iff mapIndex_def
      entitlementMatches_def expandShort_def)

text \<open>
  C1, amended. \<open>VerifyEntitlements\<close> returns true on an empty requirements list. On a
  non-empty one, for a mapping that is not nil or with no anonymous entitlement
  configured, it returns true exactly when some entry of the list is satisfied: for every
  scheme key of the entry, the key is in the mapping, or it is the default scheme and
  anonymous entitlements are configured; and every string required under the key is
  matched by a string the mapping holds under the key or, for the default scheme, by an
  anonymous entitlement.
\<close>
theorem C1_thm:
  "VerifyEntitlements ec entitlements [] = Inr True \<and>
   (requirements \<noteq> [] \<and> (entitlements \<noteq> NilMap \<or> anonymousEntitlements ec = []) \<longrightarrow>
      VerifyEntitlements ec entitlements requirements =
        Inr (\<exists>entry\<in>set requirements.
               \<forall>s rl. mapIndex entry s = Some rl \<longrightarrow>
                 (mapIndex entitlements s \<noteq> None \<or>
                    (s = defaultScheme ec \<and> anonymousEntitlements ec \<noteq> [])) \<and>
                 (\<forall>r\<in>set rl.
                    \<exists>h\<in>set (mapGet entitlements s) \<union>
                          (if s = defaultScheme ec then set (anonymousEntitlements ec) else {}).
                      entitlementMatches h r)))"
proof (intro conjI impI)
  show "VerifyEntitlements ec entitlements [] = Inr True"
    by (simp add: VerifyEntitlements_def)
next
  assume a: "requirements \<noteq> [] \<and> (entitlements \<noteq> NilMap \<or> anonymousEntitlements ec = [])"
  let ?P = "\<lambda>s rl. (mapIndex entitlements s \<noteq> None \<or>
                    (s = defaultScheme ec \<and> anonymousEntitlements ec \<noteq> [])) \<and>
                 (\<forall>r\<in>set rl.
                    \<exists>h\<in>set (mapGet entitlements s) \<union>
                          (if s = defaultScheme ec then set (anonymousEntitlements ec) else {}).
                      entitlementMatches h r)"
  have "\<exists>held. addAnonymous ec entitlements = Inr held \<and>
          (\<forall>s rl. (\<exists>hl. mapIndex held s = Some hl \<and> (\<forall>r\<in>set rl. \<exists>h\<in>set hl. entitlementMatches h r))
                    \<longleftrightarrow> ?P s rl)"
  proof (cases "anonymousEntitlements ec = []")
    case True
    have "addAnonymous ec entitlements = Inr entitlements" using True by (rule addAnonymous_none)
    moreover have "\<forall>s rl. (\<exists>hl. mapIndex entitlements s = Some hl \<and>
                (\<forall>r\<in>set rl. \<exists>h\<in>set hl. entitlementMatches h r)) \<longleftrightarrow> ?P s rl"
      using True by (simp add: held_iff mapGet_def)
    ultimately show ?thesis by blast
  next
    case False
    with a obtain f where f: "entitlements = GoMap f" by (cases entitlements) auto
    from addAnonymous_held[OF False, of f] obtain hl where
      hl: "addAnonymous ec (GoMap f) = Inr (GoMap (fmupd (defaultScheme ec) hl f))"
        "set hl = set (mapGet (GoMap f) (defaultScheme ec)) \<union> set (anonymousEntitlements ec)"
      by blast
    have "\<forall>s rl. (\<exists>hl'. mapIndex (GoMap (fmupd (defaultScheme ec) hl f)) s = Some hl' \<and>
                (\<forall>r\<in>set rl. \<exists>h\<in>set hl'. entitlementMatches h r)) \<longleftrightarrow> ?P s rl"
      using False hl(2) by (simp add: held_iff f mapIndex_def mapGet_def) blast
    then show ?thesis using hl(1) f by blast
  qed
  then obtain held where h1: "addAnonymous ec entitlements = Inr held"
    and h2: "\<And>s rl. (\<exists>hl. mapIndex held s = Some hl \<and> (\<forall>r\<in>set rl. \<exists>h\<in>set hl. entitlementMatches h r))
                    \<longleftrightarrow> ?P s rl"
    by blast
  show "VerifyEntitlements ec entitlements requirements =
        Inr (\<exists>entry\<in>set requirements. \<forall>s rl. mapIndex entry s = Some rl \<longrightarrow> ?P s rl)"
    using a h1 by (simp add: VerifyEntitlements_def anySatisfies_iff satisfiesAndRequirements_iff h2)
qed

theorem C1_witness:
  "VerifyEntitlements \<lparr>anonymousEntitlements = [''pages:read''], defaultScheme = ''bearer'', grantReadyByDefault = False\<rparr>
     (GoMap (fmupd ''oauth2'' [''y''] fmempty))
     [GoMap (fmupd ''oauth2'' [''x''] fmempty), GoMap (fmupd ''bearer'' [''pages:/foo:read''] fmempty)]
   = Inr True
   \<and> VerifyEntitlements \<lparr>anonymousEntitlements = [], defaultScheme = ''bearer'', grantReadyByDefault = False\<rparr>
     NilMap [GoMap (fmupd ''bearer'' [''pages''] fmempty)] = Inr False"
  using C1_thm [of "\<lparr>anonymousEntitlements = [''pages:read''], defaultScheme = ''bearer'', grantReadyByDefault = False\<rparr>"
      "GoMap (fmupd ''oauth2'' [''y''] fmempty)"
      "[GoMap (fmupd ''oauth2'' [''x''] fmempty), GoMap (fmupd ''bearer'' [''pages:/foo:read''] fmempty)]"]
    C1_thm [of "\<lparr>anonymousEntitlements = [], defaultScheme = ''bearer'', grantReadyByDefault = False\<rparr>"
      NilMap
      "[GoMap (fmupd ''bearer'' [''pages''] fmempty)]"]
  by (simp add: mapIndex_def mapGet_def entitlementMatches_def expandShort_def)

text \<open>
  C2. \<open>VerifyResourceEntitlements\<close> is \<open>VerifyEntitlements\<close> on the transformed inputs: the
  identity string \<open>resource:resourceName:read\<close> is appended under the default scheme to
  every entry of the requirements (an empty list becomes the single entry holding the
  identity alone under the default scheme), and it is appended under the default scheme
  to the entitlements exactly when the flag is set, the key being created where it is
  absent. This is what the code computes on every input but those where it assigns to an
  entry of a nil map, a nil requirement entry (line 78) or a nil mapping with the flag set
  (line 87), where it panics.
\<close>
theorem C2_thm:
  "VerifyResourceEntitlements ec resource resourceName entitlements requirements =
     (if NilMap \<in> set requirements \<or> (grantReadyByDefault ec \<and> entitlements = NilMap)
      then Inl NilMapAssign
      else VerifyEntitlements ec
             (if grantReadyByDefault ec
              then GoMap (fmupd (defaultScheme ec)
                            (mapGet entitlements (defaultScheme ec)
                               @ [resource @ '':'' @ resourceName @ '':read''])
                            (entries entitlements))
              else entitlements)
             (if requirements = []
              then [GoMap (fmupd (defaultScheme ec) [resource @ '':'' @ resourceName @ '':read'']
                             fmempty)]
              else map (\<lambda>entry. GoMap (fmupd (defaultScheme ec)
                            (mapGet entry (defaultScheme ec)
                               @ [resource @ '':'' @ resourceName @ '':read''])
                            (entries entry))) requirements))"
  by (simp add: VerifyResourceEntitlements_def deepCloneRequirements_id deepCloneEntitlements_id
      identityOf_def addIdentity_all mapAssign_entries Let_def)

theorem C2_witness:
  "VerifyResourceEntitlements
     \<lparr>anonymousEntitlements = [''pages:read''], defaultScheme = ''bearer'', grantReadyByDefault = False\<rparr>
     ''pages'' ''foo'' (GoMap fmempty) [] = Inr True
   \<and> VerifyResourceEntitlements
     \<lparr>anonymousEntitlements = [], defaultScheme = ''bearer'', grantReadyByDefault = False\<rparr>
     ''pages'' ''foo'' NilMap [] = Inr False
   \<and> VerifyResourceEntitlements
     \<lparr>anonymousEntitlements = [], defaultScheme = ''bearer'', grantReadyByDefault = True\<rparr>
     ''pages'' ''foo'' (GoMap fmempty) [GoMap (fmupd ''bearer'' [] fmempty)] = Inr True
   \<and> VerifyResourceEntitlements
     \<lparr>anonymousEntitlements = [], defaultScheme = ''bearer'', grantReadyByDefault = True\<rparr>
     ''pages'' ''foo'' NilMap [] = Inl NilMapAssign"
  using
    C2_thm [of "\<lparr>anonymousEntitlements = [''pages:read''], defaultScheme = ''bearer'', grantReadyByDefault = False\<rparr>"
      "''pages''" "''foo''" "GoMap fmempty" "[]"]
    C2_thm [of "\<lparr>anonymousEntitlements = [], defaultScheme = ''bearer'', grantReadyByDefault = False\<rparr>"
      "''pages''" "''foo''" NilMap "[]"]
    C2_thm [of "\<lparr>anonymousEntitlements = [], defaultScheme = ''bearer'', grantReadyByDefault = True\<rparr>"
      "''pages''" "''foo''" "GoMap fmempty" "[GoMap (fmupd ''bearer'' [] fmempty)]"]
    C2_thm [of "\<lparr>anonymousEntitlements = [], defaultScheme = ''bearer'', grantReadyByDefault = True\<rparr>"
      "''pages''" "''foo''" NilMap "[]"]
  by (simp add: VerifyEntitlements_def addAnonymous_map addAnonymous_none entries_def mapGet_def
      satisfiesAndRequirements_iff mapIndex_def entitlementMatches_def expandShort_def)

text \<open>
  C3. When both strings have three fields after the expansion of the short form, with
  equal resource fields and name fields that pass the name rule, the match succeeds
  exactly when the held verb is \<open>all\<close> or equals the required verb. So \<open>r:n:all\<close> matches
  \<open>r:n:v\<close> for every verb, and \<open>r:n:read\<close> does not match \<open>r:n:all\<close>.
\<close>
theorem C3_thm:
  "(expandShort (Split CHR '':'' held) = [r, n1, v1] \<and>
    expandShort (Split CHR '':'' required) = [r, n2, v2] \<and>
    (n1 = [] \<or> n1 = ''*'' \<or> n2 = [] \<or> n2 = ''*'' \<or> n1 = n2) \<longrightarrow>
      (entitlementMatches held required \<longleftrightarrow> v1 = ''all'' \<or> v1 = v2)) \<and>
   (CHR '':'' \<notin> set res \<union> set name \<union> set verb \<longrightarrow>
      entitlementMatches (res @ '':'' @ name @ '':all'') (res @ '':'' @ name @ '':'' @ verb)) \<and>
   (CHR '':'' \<notin> set res \<union> set name \<longrightarrow>
      \<not> entitlementMatches (res @ '':'' @ name @ '':read'') (res @ '':'' @ name @ '':all''))"
proof (intro conjI impI)
  assume "expandShort (Split CHR '':'' held) = [r, n1, v1] \<and>
    expandShort (Split CHR '':'' required) = [r, n2, v2] \<and>
    (n1 = [] \<or> n1 = ''*'' \<or> n2 = [] \<or> n2 = ''*'' \<or> n1 = n2)"
  then show "entitlementMatches held required \<longleftrightarrow> v1 = ''all'' \<or> v1 = v2"
    by (auto simp: entitlementMatches_def Let_def)
next
  assume a: "CHR '':'' \<notin> set res \<union> set name \<union> set verb"
  then have "Split CHR '':'' (res @ '':'' @ name @ '':all'') = [res, name, ''all'']"
    and "Split CHR '':'' (res @ '':'' @ name @ '':'' @ verb) = [res, name, verb]"
    by (simp_all add: Split_append_sep Split_no_sep)
  then show "entitlementMatches (res @ '':'' @ name @ '':all'') (res @ '':'' @ name @ '':'' @ verb)"
    by (simp add: entitlementMatches_def expandShort_def)
next
  assume a: "CHR '':'' \<notin> set res \<union> set name"
  then have "Split CHR '':'' (res @ '':'' @ name @ '':all'') = [res, name, ''all'']"
    and "Split CHR '':'' (res @ '':'' @ name @ '':read'') = [res, name, ''read'']"
    by (simp_all add: Split_append_sep Split_no_sep)
  then show "\<not> entitlementMatches (res @ '':'' @ name @ '':read'') (res @ '':'' @ name @ '':all'')"
    by (simp add: entitlementMatches_def expandShort_def)
qed

theorem C3_witness:
  "entitlementMatches ''pages:all'' ''pages:/foo:write'' \<and>
   \<not> entitlementMatches ''pages:/foo:read'' ''pages:*:write'' \<and>
   entitlementMatches ''pages:/foo:all'' ''pages:/foo:delete'' \<and>
   \<not> entitlementMatches ''pages:/foo:read'' ''pages:/foo:all''"
  using
    C3_thm [of "''pages:all''" "''pages''" "[]" "''all''" "''pages:/foo:write''" "''/foo''" "''write''"
               "''pages''" "''/foo''" "''delete''"]
    C3_thm [of "''pages:/foo:read''" "''pages''" "''/foo''" "''read''" "''pages:*:write''" "''*''" "''write''"
               "''pages''" "''/foo''" "''delete''"]
  by (simp add: expandShort_def)

text \<open>
  C4. When both strings have three fields after the expansion of the short form, with
  equal resource fields and verb fields that pass the verb rule, the match succeeds
  exactly when the held name is empty or \<open>*\<close>, or the required name is empty or \<open>*\<close>, or
  the two names are equal; the wildcard works in both directions.
\<close>
theorem C4_thm:
  "(expandShort (Split CHR '':'' held) = [r, n1, v1] \<and>
    expandShort (Split CHR '':'' required) = [r, n2, v2] \<and>
    (v1 = ''all'' \<or> v1 = v2) \<longrightarrow>
      (entitlementMatches held required \<longleftrightarrow>
         n1 = [] \<or> n1 = ''*'' \<or> n2 = [] \<or> n2 = ''*'' \<or> n1 = n2)) \<and>
   entitlementMatches ''pages::read'' ''pages:/foo:read'' \<and>
   entitlementMatches ''pages:/foo:read'' ''pages::read''"
  by (auto simp: entitlementMatches_def Let_def expandShort_def)

theorem C4_witness:
  "entitlementMatches ''pages:*:read'' ''pages:/foo:read'' \<and>
   entitlementMatches ''pages:/foo:all'' ''pages:read'' \<and>
   \<not> entitlementMatches ''pages:/foo:read'' ''pages:/bar:read''"
  using
    C4_thm [of "''pages:*:read''" "''pages''" "''*''" "''read''" "''pages:/foo:read''" "''/foo''" "''read''"]
    C4_thm [of "''pages:/foo:all''" "''pages''" "''/foo''" "''all''" "''pages:read''" "[]" "''read''"]
    C4_thm [of "''pages:/foo:read''" "''pages''" "''/foo''" "''read''" "''pages:/bar:read''" "''/bar''" "''read''"]
  by (simp add: expandShort_def)

text \<open>
  C5. When the split of either string has a number of fields other than two or three,
  the match holds only for equal strings. A split into two fields is expanded with an
  empty middle field. \<open>books\<close> does not match \<open>books:read\<close>, and \<open>books:all\<close> does not
  match \<open>books\<close>.
\<close>
theorem C5_thm:
  "(length (Split CHR '':'' held) \<notin> {2, 3} \<or> length (Split CHR '':'' required) \<notin> {2, 3} \<longrightarrow>
      (entitlementMatches held required \<longleftrightarrow> held = required)) \<and>
   (length (Split CHR '':'' s) = 2 \<longrightarrow>
      expandShort (Split CHR '':'' s) = [Split CHR '':'' s ! 0, [], Split CHR '':'' s ! 1]) \<and>
   \<not> entitlementMatches ''books'' ''books:read'' \<and>
   \<not> entitlementMatches ''books:all'' ''books''"
  by (auto simp: entitlementMatches_def length_expandShort Let_def expandShort_def)

theorem C5_witness:
  "\<not> entitlementMatches ''a:b:c:all'' ''a:b:c:read'' \<and>
   entitlementMatches ''a:b:c:d'' ''a:b:c:d'' \<and>
   \<not> entitlementMatches ''books:all'' ''books'' \<and>
   expandShort (Split CHR '':'' ''books:all'') = [''books'', [], ''all'']"
  using C5_thm [of "''a:b:c:all''" "''a:b:c:read''" "''books:all''"]
    C5_thm [of "''a:b:c:d''" "''a:b:c:d''" "''books:all''"]
    C5_thm [of "''books:all''" "''books''" "''books:all''"]
  by simp

text \<open>
  C6. Neither \<open>VerifyEntitlements\<close> nor \<open>VerifyResourceEntitlements\<close> writes to what the caller
  supplied: in the store a call ends in, returning or panicking, every map and every
  backing array that existed at the call is there with the content it had; the anonymous
  entitlements and the identity string go into objects allocated during the call.
\<close>
theorem C6_thm:
  "preserved st (snd (VerifyEntitlementsS ec entitlements requirements st)) \<and>
   preserved st (snd (VerifyResourceEntitlementsS ec resource resourceName entitlements requirements st))"
  using VerifyEntitlementsS_inv[OF allocInv_refl, of st ec entitlements requirements]
    VerifyResourceEntitlementsS_inv[OF allocInv_refl, of st ec resource resourceName entitlements requirements]
  by (simp add: allocInv_def)

theorem C6_witness:
  "fst (VerifyResourceEntitlementsS exampleChecker ''pages'' ''foo'' (MapAt 0) NilReqs exampleStore)
     = Inr True \<and>
   length (maps (snd (VerifyResourceEntitlementsS exampleChecker ''pages'' ''foo'' (MapAt 0) NilReqs
                        exampleStore))) = 4 \<and>
   preserved exampleStore
     (snd (VerifyResourceEntitlementsS exampleChecker ''pages'' ''foo'' (MapAt 0) NilReqs exampleStore))"
proof -
  have a: "fst (VerifyResourceEntitlementsS exampleChecker ''pages'' ''foo'' (MapAt 0) NilReqs exampleStore)
     = Inr True"
    by code_simp
  have b: "length (maps (snd (VerifyResourceEntitlementsS exampleChecker ''pages'' ''foo'' (MapAt 0) NilReqs
                        exampleStore))) = 4"
    by code_simp
  from C6_thm [of exampleStore exampleChecker "MapAt 0" NilReqs "''pages''" "''foo''"]
  have c: "preserved exampleStore
     (snd (VerifyResourceEntitlementsS exampleChecker ''pages'' ''foo'' (MapAt 0) NilReqs exampleStore))"
    by (rule conjunct2)
  from a b c show ?thesis by (intro conjI)
qed






text \<open>
  C9. The claim reads: both operations return a boolean on every input, a nil mapping
  included. They do not: with an anonymous entitlement configured, line 123 assigns to
  an entry of the nil clone of a nil mapping; with the flag set, line 87 does; and line 78
  assigns to the nil clone of a nil requirement entry. Each is a run-time panic.
\<close>
theorem C9_panics:
  "VerifyEntitlements (NewEntitlementsChecker [''pages:read''] [] False)
     NilMap [GoMap (fmupd ''bearer'' [''pages:/foo:read''] fmempty)] = Inl NilMapAssign
   \<and> VerifyResourceEntitlements (NewEntitlementsChecker [] [] True)
     ''pages'' ''foo'' NilMap [] = Inl NilMapAssign
   \<and> VerifyResourceEntitlements (NewEntitlementsChecker [] [] False)
     ''pages'' ''foo'' (GoMap fmempty) [NilMap] = Inl NilMapAssign"
  by (simp add: VerifyEntitlements_def VerifyResourceEntitlements_def NewEntitlementsChecker_def
      addAnonymous_nil deepCloneEntitlements_id deepCloneRequirements_id mapAssign_def)

text \<open>On a mapping that is not nil, \<open>VerifyEntitlements\<close> returns.\<close>
lemma VerifyEntitlements_total:
  "\<exists>b. VerifyEntitlements ec (GoMap entitlements) requirements = Inr b"
  by (cases "anonymousEntitlements ec = []")
     (auto simp: VerifyEntitlements_def addAnonymous_none addAnonymous_map)

text \<open>
  C10. A requirements list with an entry that has no scheme key makes
  \<open>VerifyEntitlements\<close> return true on every mapping, the empty one and the nil one
  included, but for the nil mapping with an anonymous entitlement configured, where
  line 123 panics.
\<close>
theorem C10_thm:
  "\<exists>entry\<in>set requirements. \<forall>s. mapIndex entry s = None \<Longrightarrow>
   VerifyEntitlements ec entitlements requirements =
     (if entitlements = NilMap \<and> anonymousEntitlements ec \<noteq> [] then Inl NilMapAssign
      else Inr True)"
proof -
  assume a: "\<exists>entry\<in>set requirements. \<forall>s. mapIndex entry s = None"
  then have ne: "requirements \<noteq> []" by auto
  from a obtain entry where e: "entry \<in> set requirements" "\<forall>s. mapIndex entry s = None"
    by blast
  have "satisfiesAndRequirements w entry" for w
    using e(2) by (simp add: satisfiesAndRequirements_iff)
  with e(1) have sat: "anySatisfies w requirements" for w
    unfolding anySatisfies_iff by blast
  show ?thesis
  proof (cases "anonymousEntitlements ec = []")
    case True
    then show ?thesis using ne sat by (simp add: VerifyEntitlements_def addAnonymous_none)
  next
    case False
    then show ?thesis using ne sat
      by (cases entitlements)
         (simp_all add: VerifyEntitlements_def addAnonymous_nil addAnonymous_map)
  qed
qed

theorem C10_witness:
  "VerifyEntitlements \<lparr>anonymousEntitlements = [], defaultScheme = ''bearer'', grantReadyByDefault = False\<rparr>
     (GoMap fmempty) [GoMap (fmupd ''bearer'' [''admin''] fmempty), GoMap fmempty] = Inr True
   \<and> VerifyEntitlements \<lparr>anonymousEntitlements = [], defaultScheme = ''bearer'', grantReadyByDefault = False\<rparr>
     NilMap [NilMap] = Inr True
   \<and> VerifyEntitlements \<lparr>anonymousEntitlements = [''pages:read''], defaultScheme = ''bearer'', grantReadyByDefault = False\<rparr>
     NilMap [GoMap fmempty] = Inl NilMapAssign"
  using C10_thm [of "[GoMap (fmupd ''bearer'' [''admin''] fmempty), GoMap fmempty]"
      "\<lparr>anonymousEntitlements = [], defaultScheme = ''bearer'', grantReadyByDefault = False\<rparr>" "GoMap fmempty"]
    C10_thm [of "[NilMap]"
      "\<lparr>anonymousEntitlements = [], defaultScheme = ''bearer'', grantReadyByDefault = False\<rparr>" NilMap]
    C10_thm [of "[GoMap fmempty]"
      "\<lparr>anonymousEntitlements = [''pages:read''], defaultScheme = ''bearer'', grantReadyByDefault = False\<rparr>" NilMap]
  by (simp add: mapIndex_def)

end
